theory Spec2Isabelle
  imports Complex_Main "HOL-Library.Multiset" "HOL-Library.Sublist"
begin

section \<open>Strings and the Python built-ins the metrics module relies on\<close>

text \<open>
  A Python string is modelled as a list of code points below 256 (the type \<open>char\<close>);
  code points are read with \<open>code_point\<close>. Python floats are modelled as exact reals:
  rounding is not part of the model. Exceptions are values of \<open>py_error\<close>.
\<close>

datatype py_error = ZeroDivisionError | ValueError

definition code_point :: "char \<Rightarrow> nat" where
  "code_point c = of_char c"

definition is_az :: "char \<Rightarrow> bool" where
  "is_az c = (97 \<le> code_point c \<and> code_point c \<le> 122)"

definition is_09 :: "char \<Rightarrow> bool" where
  "is_09 c = (48 \<le> code_point c \<and> code_point c \<le> 57)"

text \<open>\<open>str.lower\<close> on code points below 256: the ASCII capitals and the Latin-1
  capitals (all of 192..222 but the multiplication sign 215) move up by 32.\<close>

definition lower_char :: "char \<Rightarrow> char" where
  "lower_char c =
     (let n = code_point c
      in if (65 \<le> n \<and> n \<le> 90) \<or> (192 \<le> n \<and> n \<le> 222 \<and> n \<noteq> 215)
         then char_of (n + 32) else c)"

definition str_lower :: "string \<Rightarrow> string" where
  "str_lower s = map lower_char s"

text \<open>The characters \<open>str.split()\<close> treats as whitespace (\<open>str.isspace\<close>).\<close>

definition is_space :: "char \<Rightarrow> bool" where
  "is_space c =
     (let n = code_point c
      in (9 \<le> n \<and> n \<le> 13) \<or> (28 \<le> n \<and> n \<le> 32) \<or> n = 133 \<or> n = 160)"

text \<open>The characters the regular expression class \<open>\w\<close> accepts on a \<open>str\<close> pattern:
  alphanumerics and the underscore.\<close>

definition is_word_char :: "char \<Rightarrow> bool" where
  "is_word_char c =
     (let n = code_point c
      in (48 \<le> n \<and> n \<le> 57) \<or> (65 \<le> n \<and> n \<le> 90) \<or> n = 95 \<or> (97 \<le> n \<and> n \<le> 122)
         \<or> n = 170 \<or> n = 178 \<or> n = 179 \<or> n = 181 \<or> n = 185 \<or> n = 186
         \<or> (188 \<le> n \<and> n \<le> 190) \<or> (192 \<le> n \<and> n \<le> 214)
         \<or> (216 \<le> n \<and> n \<le> 246) \<or> (248 \<le> n \<and> n \<le> 255))"

text \<open>\<open>str.split()\<close> without arguments: maximal runs of non-whitespace characters.
  The first argument is the token read so far.\<close>

fun split_from :: "string \<Rightarrow> string \<Rightarrow> string list" where
  "split_from cur [] = (if cur = [] then [] else [cur])"
| "split_from cur (c # cs) =
     (if is_space c
      then (if cur = [] then split_from [] cs else cur # split_from [] cs)
      else split_from (cur @ [c]) cs)"

definition py_split :: "string \<Rightarrow> string list" where
  "py_split s = split_from [] s"

text \<open>\<open>sep.join(parts)\<close>.\<close>

fun py_join :: "string \<Rightarrow> string list \<Rightarrow> string" where
  "py_join sep [] = []"
| "py_join sep [w] = w"
| "py_join sep (w # v # ws) = w @ sep @ py_join sep (v # ws)"

text \<open>Python's true division.\<close>

definition py_div :: "real \<Rightarrow> real \<Rightarrow> py_error + real" where
  "py_div a b = (if b = 0 then Inl ZeroDivisionError else Inr (a / b))"

section \<open>normalize_answer\<close>

text \<open>\<open>re.sub(r'[^a-z0-9 ]', '', text)\<close>: every character outside the class is dropped.\<close>

definition keep_char :: "char \<Rightarrow> bool" where
  "keep_char c = (is_az c \<or> is_09 c \<or> c = CHR '' '')"

definition remove_punctuation :: "string \<Rightarrow> string" where
  "remove_punctuation text = filter keep_char text"

text \<open>
  \<open>re.sub(r'\b(a|an|the)\b', ' ', text)\<close>. \<open>\b\<close> holds between two positions when
  exactly one of the characters beside it is a word character; beyond either end of the
  text there is no word character. \<open>match_article prev s\<close> is the length of the match
  that starts where \<open>s\<close> starts, \<open>prev\<close> being the character before: the alternatives
  are tried from left to right, each followed by the closing \<open>\b\<close>.
\<close>

definition word_opt :: "char option \<Rightarrow> bool" where
  "word_opt c = (case c of None \<Rightarrow> False | Some x \<Rightarrow> is_word_char x)"

definition boundary :: "char option \<Rightarrow> char option \<Rightarrow> bool" where
  "boundary l r = (word_opt l \<noteq> word_opt r)"

definition char_at :: "string \<Rightarrow> nat \<Rightarrow> char option" where
  "char_at s i = (if i < length s then Some (s ! i) else None)"

definition match_literal :: "string \<Rightarrow> string \<Rightarrow> bool" where
  "match_literal lit s =
     (prefix lit s \<and> boundary (char_at s (length lit - 1)) (char_at s (length lit)))"

definition match_article :: "char option \<Rightarrow> string \<Rightarrow> nat option" where
  "match_article prev s =
     (if \<not> boundary prev (char_at s 0) then None
      else if match_literal ''a'' s then Some 1
      else if match_literal ''an'' s then Some 2
      else if match_literal ''the'' s then Some 3
      else None)"

text \<open>The scan of \<open>re.sub\<close>: matches are found from left to right and do not overlap;
  a character at which no match starts is copied.\<close>

fun sub_articles :: "char option \<Rightarrow> string \<Rightarrow> string" where
  "sub_articles prev [] = []"
| "sub_articles prev (c # cs) =
     (case match_article prev (c # cs) of
        None \<Rightarrow> c # sub_articles (Some c) cs
      | Some n \<Rightarrow> CHR '' '' # sub_articles (char_at (c # cs) (n - 1)) (drop (n - 1) cs))"

definition remove_articles :: "string \<Rightarrow> string" where
  "remove_articles text = sub_articles None text"

definition white_space_fix :: "string \<Rightarrow> string" where
  "white_space_fix text = py_join '' '' (py_split text)"

definition normalize_answer :: "string \<Rightarrow> string" where
  "normalize_answer s = white_space_fix (remove_articles (remove_punctuation (str_lower s)))"

section \<open>The data model\<close>

text \<open>
  Modelled from the spec: the classes \<open>Context\<close>, \<open>Answer\<close> and \<open>Document\<close> are
  declared outside the metrics module. The records below hold the fields the spec lists
  for them; \<open>reorder_contexts\<close> is absent (\<open>None\<close>) until a reranker has written it.
  \<open>data\<close> is the object that bundles the documents with the predictions.
\<close>

record context_rec =
  ctx_id :: string
  ctx_text :: string
  ctx_score :: real
  has_answer :: bool

record answer =
  answers :: "string list"

record document =
  question :: string
  contexts :: "context_rec list"
  reorder_contexts :: "context_rec list option"
  doc_answers :: answer

record data =
  documents :: "document list"
  predictions :: "string list"

text \<open>The configuration dictionary, one optional entry per recognised key.\<close>

record config =
  cfg_dataset_name :: "string option"
  bleu_max_order :: "int option"
  bleu_smooth :: "bool option"

type_synonym result_map = "string \<rightharpoonup> real"

definition get_dataset_answer :: "data \<Rightarrow> string list list" where
  "get_dataset_answer d = map (\<lambda>doc. answers (doc_answers doc)) (documents d)"

text \<open>A list comprehension whose body may raise: the first error ends it.\<close>

fun map_result :: "('a \<Rightarrow> py_error + 'b) \<Rightarrow> 'a list \<Rightarrow> py_error + 'b list" where
  "map_result f [] = Inr []"
| "map_result f (x # xs) =
     (case f x of
        Inl e \<Rightarrow> Inl e
      | Inr y \<Rightarrow> (case map_result f xs of Inl e \<Rightarrow> Inl e | Inr ys \<Rightarrow> Inr (y # ys)))"

text \<open>\<open>sum(metric_score_list) / len(metric_score_list)\<close>.\<close>

definition mean_score :: "real list \<Rightarrow> py_error + real" where
  "mean_score metric_score_list = py_div (sum_list metric_score_list) (real (length metric_score_list))"

section \<open>Exact match and contains match\<close>

fun em_loop :: "string \<Rightarrow> string list \<Rightarrow> real" where
  "em_loop normalized_prediction [] = 0"
| "em_loop normalized_prediction (a # golden_answers) =
     (if normalize_answer a = normalized_prediction then 1
      else em_loop normalized_prediction golden_answers)"

definition calculate_em :: "string \<Rightarrow> string list \<Rightarrow> real" where
  "calculate_em prediction golden_answers = em_loop (normalize_answer prediction) golden_answers"

text \<open>Python's \<open>a in b\<close> on strings is the contiguous substring test, \<open>sublist a b\<close>.\<close>

fun contains_loop :: "string \<Rightarrow> string list \<Rightarrow> real" where
  "contains_loop normalized_prediction [] = 0"
| "contains_loop normalized_prediction (a # golden_answers) =
     (if sublist (normalize_answer a) normalized_prediction then 1
      else contains_loop normalized_prediction golden_answers)"

definition calculate_contains :: "string \<Rightarrow> string list \<Rightarrow> real" where
  "calculate_contains prediction golden_answers =
     contains_loop (normalize_answer prediction) golden_answers"

section \<open>Token-level F1, precision and recall\<close>

text \<open>The dictionary \<open>final_metric\<close> has the three fixed keys of this record. A
  \<open>Counter\<close> is a multiset: \<open>&\<close> is the intersection, \<open>sum(common.values())\<close> its size.\<close>

record scores =
  f1 :: real
  precision :: real
  recall :: real

fun token_level_loop :: "string \<Rightarrow> string list \<Rightarrow> scores \<Rightarrow> py_error + scores" where
  "token_level_loop prediction [] final_metric = Inr final_metric"
| "token_level_loop prediction (ground_truth # ground_truths) final_metric =
     (let pred_tokens = py_split (normalize_answer prediction);
          truth_tokens = py_split (normalize_answer ground_truth);
          common = mset pred_tokens \<inter># mset truth_tokens;
          num_same = size common
      in if num_same = 0 then token_level_loop prediction ground_truths final_metric
         else
           (case py_div (real num_same) (real (length pred_tokens)) of
              Inl e \<Rightarrow> Inl e
            | Inr p \<Rightarrow>
           (case py_div (real num_same) (real (length truth_tokens)) of
              Inl e \<Rightarrow> Inl e
            | Inr r \<Rightarrow>
           (case py_div (2 * p * r) (p + r) of
              Inl e \<Rightarrow> Inl e
            | Inr f \<Rightarrow>
                token_level_loop prediction ground_truths
                  \<lparr>f1 = max f (f1 final_metric),
                   precision = max p (precision final_metric),
                   recall = max r (recall final_metric)\<rparr>))))"

definition token_level_scores :: "string \<Rightarrow> string list \<Rightarrow> py_error + scores" where
  "token_level_scores prediction ground_truths =
     token_level_loop prediction ground_truths \<lparr>f1 = 0, precision = 0, recall = 0\<rparr>"

section \<open>The aggregate scorers\<close>

datatype metric_class = ExactMatch | F1Score | PrecisionScore | RecallScore | ContainsMatch

text \<open>The per-instance score of each scorer, on one (prediction, golden answers) pair
  of the \<open>zip\<close>.\<close>

fun instance_score :: "metric_class \<Rightarrow> string \<times> string list \<Rightarrow> py_error + real" where
  "instance_score ExactMatch (pred, golden_answers) = Inr (calculate_em pred golden_answers)"
| "instance_score F1Score (pred, golden_answers) =
     (case token_level_scores pred golden_answers of Inl e \<Rightarrow> Inl e | Inr m \<Rightarrow> Inr (f1 m))"
| "instance_score PrecisionScore (pred, golden_answers) =
     (case token_level_scores pred golden_answers of Inl e \<Rightarrow> Inl e | Inr m \<Rightarrow> Inr (precision m))"
| "instance_score RecallScore (pred, golden_answers) =
     (case token_level_scores pred golden_answers of Inl e \<Rightarrow> Inl e | Inr m \<Rightarrow> Inr (recall m))"
| "instance_score ContainsMatch (pred, golden_answers) =
     Inr (calculate_contains pred golden_answers)"

fun result_key :: "metric_class \<Rightarrow> string" where
  "result_key ExactMatch = ''exact_match''"
| "result_key F1Score = ''f1_score''"
| "result_key PrecisionScore = ''precision''"
| "result_key RecallScore = ''recall''"
| "result_key ContainsMatch = ''contains_match''"

definition calculate_metric :: "metric_class \<Rightarrow> data \<Rightarrow> py_error + (result_map \<times> real list)" where
  "calculate_metric mc d =
     (let pred_list = predictions d;
          golden_answers_list = get_dataset_answer d
      in case map_result (instance_score mc) (zip pred_list golden_answers_list) of
           Inl e \<Rightarrow> Inl e
         | Inr metric_score_list \<Rightarrow>
             (case mean_score metric_score_list of
                Inl e \<Rightarrow> Inl e
              | Inr score \<Rightarrow> Inr ([result_key mc \<mapsto> score * 100], metric_score_list)))"

section \<open>BLEU\<close>

text \<open>The scorer object: the attributes \<open>__init__\<close> sets. The constructor reads the
  configuration with \<open>config.get(key, default)\<close> and checks nothing.\<close>

record bleu_scorer =
  scorer_config :: config
  dataset_name :: string
  max_order :: int
  smooth :: bool

definition dict_get :: "'a option \<Rightarrow> 'a \<Rightarrow> 'a" where
  "dict_get entry dflt = (case entry of None \<Rightarrow> dflt | Some v \<Rightarrow> v)"

definition BLEUScore_init :: "config \<Rightarrow> py_error + bleu_scorer" where
  "BLEUScore_init cfg =
     Inr \<lparr>scorer_config = cfg,
          dataset_name = dict_get (cfg_dataset_name cfg) ''default'',
          max_order = dict_get (bleu_max_order cfg) 4,
          smooth = dict_get (bleu_smooth cfg) False\<rparr>"

text \<open>\<open>_get_ngrams\<close>: the windows \<open>segment[i : i + order]\<close> in the order the two
  loops visit them (\<open>range(0, len(segment) - order + 1)\<close> is empty when the segment is
  shorter than \<open>order\<close>); the \<open>Counter\<close> is the multiset of the windows.\<close>

definition windows :: "'a list \<Rightarrow> nat \<Rightarrow> 'a list list" where
  "windows segment order =
     map (\<lambda>i. take order (drop i segment)) [0..<length segment + 1 - order]"

definition ngram_list :: "'a list \<Rightarrow> int \<Rightarrow> 'a list list" where
  "ngram_list segment mo = concat (map (windows segment) [1..<nat (mo + 1)])"

definition get_ngrams :: "'a list \<Rightarrow> int \<Rightarrow> 'a list multiset" where
  "get_ngrams segment mo = mset (ngram_list segment mo)"

text \<open>\<open>min\<close> of a sequence raises \<open>ValueError\<close> on the empty one.\<close>

fun py_min :: "('a::linorder) list \<Rightarrow> py_error + 'a" where
  "py_min [] = Inl ValueError"
| "py_min (x # xs) = Inr (fold min xs x)"

text \<open>
  \<open>for ngram in overlap: matches_by_order[len(ngram) - 1] += overlap[ngram]\<close>.
  The loop visits each distinct n-gram once and adds its count, so entry \<open>i\<close> grows by
  the number of members of the overlap, counted with multiplicity, of length \<open>i + 1\<close>.
  Every n-gram of \<open>_get_ngrams\<close> has a length from 1 to \<open>max_order\<close>, the length
  of the list, so no index is out of range.
\<close>

definition add_matches :: "nat list \<Rightarrow> 'a list multiset \<Rightarrow> nat list" where
  "add_matches matches overlap =
     map (\<lambda>i. matches ! i + size (filter_mset (\<lambda>ngram. length ngram = i + 1) overlap))
         [0..<length matches]"

text \<open>\<open>for order in range(1, max_order + 1)\<close>: the possible matches of one translation.\<close>

definition possible_step :: "nat \<Rightarrow> nat \<Rightarrow> nat list \<Rightarrow> nat list" where
  "possible_step translation_len order possible =
     (let possible_matches = int translation_len - int order + 1
      in if possible_matches > 0
         then possible[order - 1 := possible ! (order - 1) + nat possible_matches]
         else possible)"

definition add_possible :: "int \<Rightarrow> nat \<Rightarrow> nat list \<Rightarrow> nat list" where
  "add_possible mo translation_len possible =
     fold (possible_step translation_len) [1..<nat (mo + 1)] possible"

record bleu_acc =
  matches_by_order :: "nat list"
  possible_matches_by_order :: "nat list"
  reference_length :: nat
  translation_length :: nat

definition merge_references :: "'a list list \<Rightarrow> int \<Rightarrow> 'a list multiset" where
  "merge_references references mo =
     fold (\<lambda>reference merged. merged \<union># get_ngrams reference mo) references {#}"

fun bleu_loop :: "int \<Rightarrow> (string list list \<times> string list) list \<Rightarrow> bleu_acc
    \<Rightarrow> py_error + bleu_acc" where
  "bleu_loop mo [] acc = Inr acc"
| "bleu_loop mo ((references, translation) # rest) acc =
     (case py_min (map length references) of
        Inl e \<Rightarrow> Inl e
      | Inr shortest \<Rightarrow>
          (let merged_ref_ngram_counts = merge_references references mo;
               translation_ngram_counts = get_ngrams translation mo;
               overlap = translation_ngram_counts \<inter># merged_ref_ngram_counts
           in bleu_loop mo rest
                \<lparr>matches_by_order = add_matches (matches_by_order acc) overlap,
                 possible_matches_by_order =
                   add_possible mo (length translation) (possible_matches_by_order acc),
                 reference_length = reference_length acc + shortest,
                 translation_length = translation_length acc + length translation\<rparr>))"

definition precision_at :: "bool \<Rightarrow> nat list \<Rightarrow> nat list \<Rightarrow> nat \<Rightarrow> real" where
  "precision_at smooth_flag matches possible i =
     (if smooth_flag then (real (matches ! i) + 1) / (real (possible ! i) + 1)
      else if possible ! i > 0 then real (matches ! i) / real (possible ! i) else 0)"

text \<open>The pass over the corpus and the loop that fills \<open>precisions\<close>.\<close>

definition bleu_precisions :: "bleu_scorer \<Rightarrow> string list list list \<Rightarrow> string list list
    \<Rightarrow> py_error + real list" where
  "bleu_precisions self reference_corpus translation_corpus =
     (let mo = max_order self;
          init = \<lparr>matches_by_order = replicate (nat mo) 0,
                  possible_matches_by_order = replicate (nat mo) 0,
                  reference_length = 0, translation_length = 0\<rparr>
      in case bleu_loop mo (zip reference_corpus translation_corpus) init of
           Inl e \<Rightarrow> Inl e
         | Inr acc \<Rightarrow>
             Inr (map (precision_at (smooth self) (matches_by_order acc)
                         (possible_matches_by_order acc)) [0..<nat mo]))"

text \<open>The last line evaluates \<open>min(precisions) > 0\<close> first; the logarithms and the
  division by \<open>max_order\<close> are reached only when every precision is positive.\<close>

definition compute_bleu :: "bleu_scorer \<Rightarrow> string list list list \<Rightarrow> string list list
    \<Rightarrow> py_error + real" where
  "compute_bleu self reference_corpus translation_corpus =
     (case bleu_precisions self reference_corpus translation_corpus of
        Inl e \<Rightarrow> Inl e
      | Inr precisions \<Rightarrow>
          (case py_min precisions of
             Inl e \<Rightarrow> Inl e
           | Inr lowest \<Rightarrow>
               Inr (if lowest > 0
                    then exp (sum_list (map ln precisions) / real_of_int (max_order self))
                    else 0)))"

section \<open>Retrieval accuracy and the facade\<close>

text \<open>The slice \<open>xs[:k]\<close>: a negative \<open>k\<close> counts from the end.\<close>

definition slice_to :: "int \<Rightarrow> 'a list \<Rightarrow> 'a list" where
  "slice_to k xs = (if 0 \<le> k then take (nat k) xs else take (length xs - nat (- k)) xs)"

text \<open>\<open>document.reorder_contexts if (use_reordered and document.reorder_contexts)
  else document.contexts\<close>: an absent or empty list is falsy.\<close>

definition contexts_to_use :: "bool \<Rightarrow> document \<Rightarrow> context_rec list" where
  "contexts_to_use use_reordered doc =
     (case reorder_contexts doc of
        None \<Rightarrow> contexts doc
      | Some rc \<Rightarrow> if use_reordered \<and> rc \<noteq> [] then rc else contexts doc)"

fun top_k_loop :: "int \<Rightarrow> bool \<Rightarrow> document list \<Rightarrow> nat \<times> nat \<Rightarrow> nat \<times> nat" where
  "top_k_loop k use_reordered [] (hits, total_docs) = (hits, total_docs)"
| "top_k_loop k use_reordered (doc # docs) (hits, total_docs) =
     (if list_ex has_answer (slice_to k (contexts_to_use use_reordered doc))
      then top_k_loop k use_reordered docs (hits + 1, total_docs + 1)
      else top_k_loop k use_reordered docs (hits, total_docs + 1))"

definition top_k_accuracy :: "document list \<Rightarrow> int \<Rightarrow> bool \<Rightarrow> real" where
  "top_k_accuracy docs k use_reordered =
     (case top_k_loop k use_reordered docs (0, 0) of
        (hits, total_docs) \<Rightarrow> if total_docs > 0 then (real hits / real total_docs) * 100 else 0)"

text \<open>\<open>calculate_generation_metrics\<close>: the five scorers in the order of the list, each
  result merged with \<open>results.update\<close>; an exception of a scorer ends the call.\<close>

fun run_metrics :: "metric_class list \<Rightarrow> data \<Rightarrow> result_map \<Rightarrow> py_error + result_map" where
  "run_metrics [] d results = Inr results"
| "run_metrics (mc # mcs) d results =
     (case calculate_metric mc d of
        Inl e \<Rightarrow> Inl e
      | Inr (score, per_instance) \<Rightarrow> run_metrics mcs d (results ++ score))"

definition calculate_generation_metrics :: "document list \<Rightarrow> string list
    \<Rightarrow> py_error + result_map" where
  "calculate_generation_metrics docs preds =
     run_metrics [ExactMatch, F1Score, PrecisionScore, RecallScore, ContainsMatch]
       \<lparr>documents = docs, predictions = preds\<rparr> Map.empty"

section \<open>The specification's reading of the scorers\<close>

text \<open>The contribution of one reference to the token-level scores, in the words of the
  specification: zero on an empty intersection, the three quotients otherwise.\<close>

definition reference_scores :: "string \<Rightarrow> string \<Rightarrow> scores" where
  "reference_scores prediction ground_truth =
     (let pred_tokens = py_split (normalize_answer prediction);
          ref_tokens = py_split (normalize_answer ground_truth);
          num_same = size (mset pred_tokens \<inter># mset ref_tokens);
          p = real num_same / real (length pred_tokens);
          r = real num_same / real (length ref_tokens)
      in if num_same = 0 then \<lparr>f1 = 0, precision = 0, recall = 0\<rparr>
         else \<lparr>f1 = 2 * p * r / (p + r), precision = p, recall = r\<rparr>)"

text \<open>The elementwise maximum across the references, starting from zero.\<close>

definition best_scores :: "string \<Rightarrow> string list \<Rightarrow> scores" where
  "best_scores prediction ground_truths =
     \<lparr>f1 = Max (set (0 # map (\<lambda>g. f1 (reference_scores prediction g)) ground_truths)),
      precision = Max (set (0 # map (\<lambda>g. precision (reference_scores prediction g)) ground_truths)),
      recall = Max (set (0 # map (\<lambda>g. recall (reference_scores prediction g)) ground_truths))\<rparr>"

text \<open>The contexts the specification selects for a document, and whether they make the
  document a hit.\<close>

definition selected_contexts :: "int \<Rightarrow> bool \<Rightarrow> document \<Rightarrow> context_rec list" where
  "selected_contexts k use_reordered doc =
     (if use_reordered \<and> reorder_contexts doc \<noteq> None \<and> reorder_contexts doc \<noteq> Some []
      then slice_to k (the (reorder_contexts doc))
      else slice_to k (contexts doc))"

definition is_hit :: "int \<Rightarrow> bool \<Rightarrow> document \<Rightarrow> bool" where
  "is_hit k use_reordered doc = (\<exists>c \<in> set (selected_contexts k use_reordered doc). has_answer c)"

text \<open>The words the article pattern removes, and the words made of \<open>\w\<close> characters.\<close>

definition is_article :: "string \<Rightarrow> bool" where
  "is_article w = (w = ''a'' \<or> w = ''an'' \<or> w = ''the'')"

definition plain_word :: "string \<Rightarrow> bool" where
  "plain_word w = (w \<noteq> [] \<and> (\<forall>c \<in> set w. is_word_char c))"

section \<open>Example inputs\<close>

definition example_context :: "bool \<Rightarrow> context_rec" where
  "example_context b = \<lparr>ctx_id = ''p1'', ctx_text = ''Paris is the capital'', ctx_score = 1,
     has_answer = b\<rparr>"

definition example_document :: document where
  "example_document =
     \<lparr>question = ''capital of France'',
      contexts = [example_context True, example_context False],
      reorder_contexts = None,
      doc_answers = \<lparr>answers = [''Paris'', ''the'']\<rparr>\<rparr>"

definition example_config :: "int \<Rightarrow> config" where
  "example_config mo = \<lparr>cfg_dataset_name = None, bleu_max_order = Some mo, bleu_smooth = None\<rparr>"

definition example_scorer :: "int \<Rightarrow> bleu_scorer" where
  "example_scorer mo = \<lparr>scorer_config = example_config mo, dataset_name = ''default'',
     max_order = mo, smooth = False\<rparr>"

section \<open>The scorers never fail on a non-empty batch\<close>

lemma py_div_nonzero: "b \<noteq> 0 \<Longrightarrow> py_div a b = Inr (a / b)"
  by (simp add: py_div_def)

lemma token_level_loop_total: "\<exists>m. token_level_loop prediction gts fm = Inr m"
proof (induction gts arbitrary: fm)
  case Nil
  then show ?case by simp
next
  case (Cons g gts)
  let ?pt = "py_split (normalize_answer prediction)"
  let ?tt = "py_split (normalize_answer g)"
  let ?n = "size (mset ?pt \<inter># mset ?tt)"
  show ?case
  proof (cases "?n = 0")
    case True
    then show ?thesis using Cons.IH [of fm] by (simp add: Let_def)
  next
    case False
    have "?n \<le> size (mset ?pt)" by (rule size_mset_mono) simp
    with False have lp: "length ?pt \<noteq> 0" by auto
    have "?n \<le> size (mset ?tt)" by (rule size_mset_mono) simp
    with False have lt: "length ?tt \<noteq> 0" by auto
    have n0: "0 < real ?n" using False by linarith
    have "0 < real ?n / real (length ?pt)" "0 < real ?n / real (length ?tt)"
      using n0 lp lt by simp_all
    then have pos: "real ?n / real (length ?pt) + real ?n / real (length ?tt) \<noteq> 0"
      by linarith
    show ?thesis
      using False lp lt pos Cons.IH by (simp add: Let_def py_div_def)
  qed
qed

lemma token_level_scores_total: "\<exists>m. token_level_scores prediction gts = Inr m"
  unfolding token_level_scores_def by (rule token_level_loop_total)

lemma instance_score_total: "\<exists>v. instance_score mc pg = Inr v"
proof (cases pg)
  case (Pair p g)
  obtain m where "token_level_scores p g = Inr m"
    using token_level_scores_total by blast
  with Pair show ?thesis by (cases mc) simp_all
qed

lemma map_result_total:
  "(\<And>x. \<exists>v. f x = Inr v) \<Longrightarrow> \<exists>vs. map_result f xs = Inr vs \<and> length vs = length xs"
proof (induction xs)
  case Nil
  then show ?case by simp
next
  case (Cons x xs)
  obtain v where "f x = Inr v" using Cons.prems by blast
  moreover obtain vs where "map_result f xs = Inr vs" "length vs = length xs"
    using Cons by blast
  ultimately show ?case by simp
qed

lemma calculate_metric_empty:
  "documents d = [] \<or> predictions d = [] \<Longrightarrow> calculate_metric mc d = Inl ZeroDivisionError"
  by (auto simp: calculate_metric_def get_dataset_answer_def mean_score_def py_div_def)

lemma calculate_metric_nonempty:
  assumes "documents d \<noteq> []" "predictions d \<noteq> []"
  shows "\<exists>v l. calculate_metric mc d = Inr ([result_key mc \<mapsto> v], l)"
proof -
  let ?z = "zip (predictions d) (get_dataset_answer d)"
  obtain vs where vs: "map_result (instance_score mc) ?z = Inr vs" "length vs = length ?z"
    using map_result_total [of "instance_score mc" ?z] instance_score_total by blast
  have "?z \<noteq> []" using assms by (cases "predictions d"; cases "documents d") (simp_all add: get_dataset_answer_def)
  with vs(2) have "vs \<noteq> []" by (metis length_0_conv)
  then have "mean_score vs = Inr (sum_list vs / real (length vs))"
    by (simp add: mean_score_def py_div_def)
  with vs(1) show ?thesis by (auto simp: calculate_metric_def)
qed

lemma calculate_metric_result:
  "calculate_metric mc d = Inr (score, l) \<Longrightarrow> dom score = {result_key mc}"
  by (auto simp: calculate_metric_def Let_def split: sum.splits if_splits)

section \<open>Aggregation over a batch\<close>

text \<open>
  C8. On an empty batch (no documents, no predictions) every aggregate-mean scorer divides
  \<open>sum([])\<close> by \<open>len([])\<close>: the call ends with \<open>ZeroDivisionError\<close>, it returns no
  score. The facade, which calls the scorers, ends the same way.
\<close>

theorem empty_batch_rejected:
  "calculate_metric mc \<lparr>documents = [], predictions = []\<rparr> = Inl ZeroDivisionError
   \<and> calculate_generation_metrics [] [] = Inl ZeroDivisionError"
  by (simp add: calculate_metric_empty calculate_generation_metrics_def)

text \<open>
  C10. Whenever \<open>calculate_generation_metrics\<close> returns, the keys of the mapping are
  exactly \<open>exact_match\<close>, \<open>f1_score\<close>, \<open>precision\<close>, \<open>recall\<close> and
  \<open>contains_match\<close>; \<open>bleu_score\<close> is not among them.
\<close>

theorem generation_metrics_keys:
  assumes "calculate_generation_metrics docs preds = Inr m"
  shows "dom m = {''exact_match'', ''f1_score'', ''precision'', ''recall'', ''contains_match''}
         \<and> ''bleu_score'' \<notin> dom m"
proof -
  let ?d = "\<lparr>documents = docs, predictions = preds\<rparr>"
  from assms obtain s1 l1 s2 l2 s3 l3 s4 l4 s5 l5 where
    c: "calculate_metric ExactMatch ?d = Inr (s1, l1)"
       "calculate_metric F1Score ?d = Inr (s2, l2)"
       "calculate_metric PrecisionScore ?d = Inr (s3, l3)"
       "calculate_metric RecallScore ?d = Inr (s4, l4)"
       "calculate_metric ContainsMatch ?d = Inr (s5, l5)"
    and m: "m = Map.empty ++ s1 ++ s2 ++ s3 ++ s4 ++ s5"
    by (auto simp: calculate_generation_metrics_def split: sum.splits)
  have "dom m = dom s1 \<union> dom s2 \<union> dom s3 \<union> dom s4 \<union> dom s5"
    unfolding m by auto
  also have "\<dots> = {''exact_match'', ''f1_score'', ''precision'', ''recall'', ''contains_match''}"
    using c by (auto dest!: calculate_metric_result)
  finally show ?thesis by simp
qed

theorem generation_metrics_keys_witness:
  "\<not> isl (calculate_generation_metrics [example_document] [''Paris''])
   \<and> dom (projr (calculate_generation_metrics [example_document] [''Paris''])) =
       {''exact_match'', ''f1_score'', ''precision'', ''recall'', ''contains_match''}
   \<and> ''bleu_score'' \<notin> dom (projr (calculate_generation_metrics [example_document] [''Paris'']))"
proof -
  have r: "\<not> isl (calculate_generation_metrics [example_document] [''Paris''])"
    by code_simp
  then obtain m where m: "calculate_generation_metrics [example_document] [''Paris''] = Inr m"
    by (cases "calculate_generation_metrics [example_document] [''Paris'']") simp_all
  from generation_metrics_keys [OF m] r m show ?thesis by simp
qed

section \<open>Contains match\<close>

lemma contains_loop_empty_reference:
  "a \<in> set golden_answers \<Longrightarrow> normalize_answer a = [] \<Longrightarrow> contains_loop np golden_answers = 1"
  by (induction golden_answers) auto

text \<open>
  C9. If some reference answer normalizes to the empty string, \<open>calculate_contains\<close>
  returns 1.0 for every prediction: the empty string is a substring of every string.
\<close>

theorem contains_empty_reference:
  "a \<in> set golden_answers \<Longrightarrow> normalize_answer a = [] \<Longrightarrow>
   calculate_contains prediction golden_answers = 1"
  unfolding calculate_contains_def by (rule contains_loop_empty_reference)

theorem contains_empty_reference_witness:
  "''the'' \<in> set [''Paris'', ''the''] \<and> normalize_answer ''the'' = []
   \<and> calculate_contains ''Lyon'' [''Paris'', ''the''] = 1"
proof -
  have m: "''the'' \<in> set [''Paris'', ''the'']" by simp
  have n: "normalize_answer ''the'' = []" by code_simp
  from contains_empty_reference [OF m n, of "''Lyon''"] m n show ?thesis by simp
qed

section \<open>Construction of the BLEU scorer\<close>

lemma bleu_loop_error: "bleu_loop mo corpus acc = Inl e \<Longrightarrow> e = ValueError"
proof (induction corpus arbitrary: acc)
  case Nil
  then show ?case by simp
next
  case (Cons x corpus)
  obtain refs tr where x: "x = (refs, tr)" by (cases x)
  show ?case
  proof (cases "map length refs")
    case Nil
    with Cons.prems x show ?thesis by simp
  next
    case (Cons l ls)
    with Cons.prems x Cons.IH show ?thesis by (auto simp: Let_def)
  qed
qed

text \<open>
  C3, as the specification states it: a configuration with \<open>bleu_max_order \<le> 0\<close> makes
  the construction fail. It does not: with \<open>bleu_max_order = 0\<close> the constructor
  returns a scorer.
\<close>

theorem bleu_bad_order_counterexample:
  "\<not> isl (BLEUScore_init (example_config 0))"
  by (simp add: BLEUScore_init_def)

text \<open>
  C3, amended: the constructor stores any \<open>bleu_max_order\<close> unchecked. With a value
  \<open>\<le> 0\<close> the construction succeeds, and every later \<open>compute_bleu\<close> raises
  \<open>ValueError\<close> (the minimum of an empty sequence).
\<close>

theorem bleu_bad_order_deferred:
  assumes "bleu_max_order cfg = Some mo" and "mo \<le> 0"
  shows "\<exists>self. BLEUScore_init cfg = Inr self \<and> max_order self = mo
           \<and> compute_bleu self reference_corpus translation_corpus = Inl ValueError"
proof -
  let ?self = "\<lparr>scorer_config = cfg,
          dataset_name = dict_get (cfg_dataset_name cfg) ''default'',
          max_order = mo,
          smooth = dict_get (bleu_smooth cfg) False\<rparr>"
  have i: "BLEUScore_init cfg = Inr ?self"
    using assms(1) by (simp add: BLEUScore_init_def dict_get_def)
  have n: "nat mo = 0" using assms(2) by simp
  have "compute_bleu ?self reference_corpus translation_corpus = Inl ValueError"
  proof (cases "bleu_precisions ?self reference_corpus translation_corpus")
    case (Inl e)
    then have "e = ValueError"
      by (auto simp: bleu_precisions_def Let_def split: sum.splits dest: bleu_loop_error)
    with Inl show ?thesis by (simp add: compute_bleu_def)
  next
    case (Inr ps)
    then have "ps = []"
      using n by (auto simp: bleu_precisions_def Let_def split: sum.splits)
    with Inr show ?thesis by (simp add: compute_bleu_def)
  qed
  with i show ?thesis by auto
qed

theorem bleu_bad_order_deferred_witness:
  "bleu_max_order (example_config 0) = Some 0 \<and> (0::int) \<le> 0
   \<and> (\<exists>self. BLEUScore_init (example_config 0) = Inr self \<and> max_order self = 0
           \<and> compute_bleu self [[[''x'']]] [[''x'']] = Inl ValueError)"
proof -
  have a: "bleu_max_order (example_config 0) = Some 0" by (simp add: example_config_def)
  have b: "(0::int) \<le> 0" by simp
  from bleu_bad_order_deferred [OF a b] a b show ?thesis by simp
qed

section \<open>The facade and mismatched counts\<close>

lemma zip_take_min:
  "zip (take (min (length xs) (length ys)) xs) (take (min (length xs) (length ys)) ys) = zip xs ys"
proof (induction xs arbitrary: ys)
  case Nil
  then show ?case by simp
next
  case (Cons x xs)
  then show ?case by (cases ys) simp_all
qed

lemma calculate_metric_zip:
  "zip (predictions d) (get_dataset_answer d) = zip (predictions d') (get_dataset_answer d')
   \<Longrightarrow> calculate_metric mc d = calculate_metric mc d'"
  by (simp add: calculate_metric_def)

lemma run_metrics_cong:
  "(\<And>mc. calculate_metric mc d = calculate_metric mc d') \<Longrightarrow>
   run_metrics mcs d r = run_metrics mcs d' r"
  by (induction mcs arbitrary: r) (auto split: sum.splits)

lemma run_metrics_empty:
  "documents d = [] \<or> predictions d = [] \<Longrightarrow> mcs \<noteq> [] \<Longrightarrow>
   run_metrics mcs d r = Inl ZeroDivisionError"
  by (cases mcs) (simp_all add: calculate_metric_empty)

lemma run_metrics_nonempty:
  "documents d \<noteq> [] \<Longrightarrow> predictions d \<noteq> [] \<Longrightarrow> \<exists>m. run_metrics mcs d r = Inr m"
proof (induction mcs arbitrary: r)
  case Nil
  then show ?case by simp
next
  case (Cons mc mcs)
  obtain v l where "calculate_metric mc d = Inr ([result_key mc \<mapsto> v], l)"
    using calculate_metric_nonempty [OF Cons.prems] by blast
  with Cons show ?case by simp
qed

text \<open>
  C1, as the specification states it: a count mismatch aborts the computation. It does
  not: two documents with one prediction give a result mapping.
\<close>

theorem count_mismatch_counterexample:
  "length [''Paris''] \<noteq> length [example_document, example_document]
   \<and> \<not> isl (calculate_generation_metrics [example_document, example_document] [''Paris''])"
  by code_simp

text \<open>
  C1, amended: \<open>calculate_generation_metrics\<close> does not compare the two lengths. The
  scorers pair predictions with documents by \<open>zip\<close>, so the result is the one of the
  first \<open>min(len(documents), len(predictions))\<close> pairs, and the call fails exactly when
  one of the two lists is empty, with \<open>ZeroDivisionError\<close>.
\<close>

theorem count_mismatch_truncates:
  "calculate_generation_metrics docs preds =
     calculate_generation_metrics (take (min (length docs) (length preds)) docs)
                                  (take (min (length docs) (length preds)) preds)
   \<and> (isl (calculate_generation_metrics docs preds) \<longleftrightarrow> docs = [] \<or> preds = [])
   \<and> (docs = [] \<or> preds = [] \<longrightarrow>
        calculate_generation_metrics docs preds = Inl ZeroDivisionError)"
proof -
  let ?n = "min (length docs) (length preds)"
  let ?d = "\<lparr>documents = docs, predictions = preds\<rparr>"
  let ?d' = "\<lparr>documents = take ?n docs, predictions = take ?n preds\<rparr>"
  have "zip (predictions ?d') (get_dataset_answer ?d') = zip (predictions ?d) (get_dataset_answer ?d)"
    using zip_take_min [of preds "map (\<lambda>doc. answers (doc_answers doc)) docs"]
    by (simp add: get_dataset_answer_def take_map min.commute)
  then have "\<And>mc. calculate_metric mc ?d = calculate_metric mc ?d'"
    by (metis calculate_metric_zip)
  then have eq: "calculate_generation_metrics docs preds =
     calculate_generation_metrics (take ?n docs) (take ?n preds)"
    unfolding calculate_generation_metrics_def by (rule run_metrics_cong)
  have err: "calculate_generation_metrics docs preds = Inl ZeroDivisionError"
    if "docs = [] \<or> preds = []"
    using that unfolding calculate_generation_metrics_def by (intro run_metrics_empty) auto
  have "isl (calculate_generation_metrics docs preds) \<longleftrightarrow> docs = [] \<or> preds = []"
  proof (cases "docs = [] \<or> preds = []")
    case True
    with err show ?thesis by simp
  next
    case False
    then have "\<exists>m. run_metrics [ExactMatch, F1Score, PrecisionScore, RecallScore, ContainsMatch]
                 ?d Map.empty = Inr m"
      by (intro run_metrics_nonempty) simp_all
    then obtain m where "calculate_generation_metrics docs preds = Inr m"
      unfolding calculate_generation_metrics_def by blast
    with False show ?thesis by simp
  qed
  with eq err show ?thesis by blast
qed

theorem count_mismatch_truncates_witness:
  "calculate_generation_metrics [example_document, example_document] [''Paris''] =
     calculate_generation_metrics [example_document] [''Paris'']
   \<and> \<not> isl (calculate_generation_metrics [example_document, example_document] [''Paris''])
   \<and> ([example_document] = [] \<or> ([] :: string list) = [])
   \<and> calculate_generation_metrics [example_document] [] = Inl ZeroDivisionError"
proof -
  note t = count_mismatch_truncates [of "[example_document, example_document]" "[''Paris'']"]
  note u = count_mismatch_truncates [of "[example_document]" "[]"]
  from t [THEN conjunct1]
  have a: "calculate_generation_metrics [example_document, example_document] [''Paris''] =
     calculate_generation_metrics [example_document] [''Paris'']"
    by simp
  from t [THEN conjunct2, THEN conjunct1]
  have b: "\<not> isl (calculate_generation_metrics [example_document, example_document] [''Paris''])"
    by simp
  have c: "[example_document] = [] \<or> ([] :: string list) = []" by simp
  from u [THEN conjunct2, THEN conjunct2, THEN mp, OF c]
  have d: "calculate_generation_metrics [example_document] [] = Inl ZeroDivisionError" .
  from a b c d show ?thesis by blast
qed

section \<open>Top-K accuracy\<close>

lemma hit_test: "list_ex has_answer (slice_to k (contexts_to_use use_reordered doc)) = is_hit k use_reordered doc"
  by (cases "reorder_contexts doc")
     (auto simp: is_hit_def selected_contexts_def contexts_to_use_def list_ex_iff)

lemma top_k_loop_counts:
  "top_k_loop k use_reordered docs (hits, n) =
     (hits + length (filter (is_hit k use_reordered) docs), n + length docs)"
  by (induction docs arbitrary: hits n) (simp_all add: hit_test)

lemma top_k_accuracy_counts:
  "top_k_accuracy docs k use_reordered =
     (if docs = [] then 0
      else 100 * real (length (filter (is_hit k use_reordered) docs)) / real (length docs))"
  by (simp add: top_k_accuracy_def top_k_loop_counts)

text \<open>
  C4. \<open>top_k_accuracy\<close> selects \<open>reorder_contexts[:k]\<close> when \<open>use_reordered\<close>
  holds and \<open>reorder_contexts\<close> is non-empty, \<open>contexts[:k]\<close> otherwise; a document
  is a hit iff some selected context has \<open>has_answer\<close>; the result is
  \<open>100 * hits / total\<close>, and 0 on the empty document list.
\<close>

theorem top_k_accuracy_spec:
  "top_k_accuracy docs k use_reordered =
     (if docs = [] then 0
      else 100 * real (length (filter (is_hit k use_reordered) docs)) / real (length docs))"
  by (rule top_k_accuracy_counts)

theorem top_k_accuracy_spec_witness:
  "top_k_accuracy [example_document, example_document\<lparr>contexts := []\<rparr>] 1 False = 50
   \<and> top_k_accuracy [] 1 False = 0"
proof -
  have h: "is_hit 1 False example_document" by code_simp
  have n: "\<not> is_hit 1 False (example_document\<lparr>contexts := []\<rparr>)" by code_simp
  from top_k_accuracy_spec [of "[example_document, example_document\<lparr>contexts := []\<rparr>]" 1 False]
       top_k_accuracy_spec [of "[]" 1 False] h n
  show ?thesis by simp
qed

lemma slice_to_mono:
  assumes "k \<le> k'" and "0 \<le> k \<or> k' < 0"
  shows "set (slice_to k xs) \<subseteq> set (slice_to k' xs)"
proof (cases "0 \<le> k")
  case True
  with assms(1) show ?thesis
    by (simp add: slice_to_def set_take_subset_set_take)
next
  case False
  with assms have "k < 0" "k' < 0" by auto
  moreover have "length xs - nat (- k) \<le> length xs - nat (- k')"
    using assms(1) by simp
  ultimately show ?thesis
    by (simp add: slice_to_def set_take_subset_set_take)
qed

lemma is_hit_mono:
  assumes "k \<le> k'" and "0 \<le> k \<or> k' < 0" and "is_hit k use_reordered doc"
  shows "is_hit k' use_reordered doc"
proof -
  let ?xs = "if use_reordered \<and> reorder_contexts doc \<noteq> None \<and> reorder_contexts doc \<noteq> Some []
             then the (reorder_contexts doc) else contexts doc"
  have sel: "selected_contexts j use_reordered doc = slice_to j ?xs" for j
    by (auto simp: selected_contexts_def)
  have "set (selected_contexts k use_reordered doc) \<subseteq> set (selected_contexts k' use_reordered doc)"
    unfolding sel by (rule slice_to_mono [OF assms(1,2)])
  with assms(3) show ?thesis unfolding is_hit_def by blast
qed

lemma length_filter_mono:
  "(\<And>x. P x \<Longrightarrow> Q x) \<Longrightarrow> length (filter P xs) \<le> length (filter Q xs)"
  by (induction xs) auto

text \<open>
  C7. For a fixed document list and a fixed \<open>use_reordered\<close> flag, the accuracy does
  not decrease with the rank cut-off: \<open>top_k_accuracy(k) \<le> top_k_accuracy(k')\<close>
  whenever \<open>0 \<le> k \<le> k'\<close>, since \<open>contexts[:k]\<close> is contained in
  \<open>contexts[:k']\<close>.
\<close>

theorem top_k_monotone:
  assumes "0 \<le> k" and "k \<le> k'"
  shows "top_k_accuracy docs k use_reordered \<le> top_k_accuracy docs k' use_reordered"
proof (cases "docs = []")
  case True
  then show ?thesis by (simp add: top_k_accuracy_counts)
next
  case False
  have s: "0 \<le> k \<or> k' < 0" using assms(1) by simp
  have "length (filter (is_hit k use_reordered) docs) \<le> length (filter (is_hit k' use_reordered) docs)"
    by (rule length_filter_mono) (rule is_hit_mono [OF assms(2) s])
  then have "100 * real (length (filter (is_hit k use_reordered) docs)) / real (length docs)
      \<le> 100 * real (length (filter (is_hit k' use_reordered) docs)) / real (length docs)"
    by (intro divide_right_mono) simp_all
  with False show ?thesis by (simp add: top_k_accuracy_counts)
qed

theorem top_k_monotone_witness:
  "(0::int) \<le> 1 \<and> (1::int) \<le> 2
   \<and> top_k_accuracy [example_document] 1 False \<le> top_k_accuracy [example_document] 2 False"
proof -
  have a: "(0::int) \<le> 1" by simp
  have b: "(1::int) \<le> 2" by simp
  from top_k_monotone [OF a b, of "[example_document]" False] show ?thesis by simp
qed

section \<open>Token-level scores\<close>

lemma Max_cons_cons: "Max (set (a # x # xs)) = Max (set (max x a # xs :: real list))"
  by (cases xs) (auto simp: max.assoc max.commute max.left_commute)

lemma reference_scores_nonneg:
  "0 \<le> f1 (reference_scores p g)" "0 \<le> precision (reference_scores p g)"
  "0 \<le> recall (reference_scores p g)"
  by (simp_all add: reference_scores_def Let_def)

lemma token_level_loop_max:
  assumes "0 \<le> f1 fm" "0 \<le> precision fm" "0 \<le> recall fm"
  shows "token_level_loop prediction gts fm =
     Inr \<lparr>f1 = Max (set (f1 fm # map (\<lambda>g. f1 (reference_scores prediction g)) gts)),
          precision = Max (set (precision fm # map (\<lambda>g. precision (reference_scores prediction g)) gts)),
          recall = Max (set (recall fm # map (\<lambda>g. recall (reference_scores prediction g)) gts))\<rparr>"
  using assms
proof (induction gts arbitrary: fm)
  case Nil
  then show ?case by simp
next
  case (Cons g gts)
  let ?pt = "py_split (normalize_answer prediction)"
  let ?tt = "py_split (normalize_answer g)"
  let ?n = "size (mset ?pt \<inter># mset ?tt)"
  show ?case
  proof (cases "?n = 0")
    case True
    then have z: "reference_scores prediction g = \<lparr>f1 = 0, precision = 0, recall = 0\<rparr>"
      by (simp add: reference_scores_def Let_def)
    have "token_level_loop prediction (g # gts) fm = token_level_loop prediction gts fm"
      using True by (simp add: Let_def)
    also note Cons.IH [OF Cons.prems]
    finally show ?thesis
      using Cons.prems
      by (simp only: list.map Max_cons_cons z scores.simps max_absorb2)
  next
    case False
    have "?n \<le> size (mset ?pt)" by (rule size_mset_mono) simp
    with False have lp: "length ?pt \<noteq> 0" by auto
    have "?n \<le> size (mset ?tt)" by (rule size_mset_mono) simp
    with False have lt: "length ?tt \<noteq> 0" by auto
    have n0: "0 < real ?n" using False by linarith
    let ?p = "real ?n / real (length ?pt)"
    let ?r = "real ?n / real (length ?tt)"
    have "0 < ?p" "0 < ?r" using n0 lp lt by simp_all
    then have pos: "?p + ?r \<noteq> 0" by linarith
    let ?fm = "\<lparr>f1 = max (2 * ?p * ?r / (?p + ?r)) (f1 fm), precision = max ?p (precision fm),
                recall = max ?r (recall fm)\<rparr>"
    have rs: "reference_scores prediction g = \<lparr>f1 = 2 * ?p * ?r / (?p + ?r), precision = ?p, recall = ?r\<rparr>"
      using False by (simp add: reference_scores_def Let_def)
    have step: "token_level_loop prediction (g # gts) fm = token_level_loop prediction gts ?fm"
      using False lp lt pos by (simp add: Let_def py_div_def)
    have "0 \<le> f1 ?fm" "0 \<le> precision ?fm" "0 \<le> recall ?fm"
      using Cons.prems by (simp_all add: max.coboundedI2)
    note Cons.IH [OF this]
    with step show ?thesis
      by (simp only: list.map Max_cons_cons rs scores.simps)
  qed
qed

text \<open>
  C5. \<open>token_level_scores\<close> never raises; its result is the elementwise maximum, over
  the references, of the per-reference scores (zero for a reference without a common
  token, the three quotients otherwise); a prediction without tokens gives zero
  everywhere, with no division by zero.
\<close>

theorem token_level_scores_spec:
  "token_level_scores prediction ground_truths = Inr (best_scores prediction ground_truths)
   \<and> (py_split (normalize_answer prediction) = [] \<longrightarrow>
        token_level_scores prediction ground_truths = Inr \<lparr>f1 = 0, precision = 0, recall = 0\<rparr>)"
proof -
  have a: "token_level_scores prediction ground_truths = Inr (best_scores prediction ground_truths)"
    unfolding token_level_scores_def best_scores_def
    by (subst token_level_loop_max) simp_all
  have "best_scores prediction ground_truths = \<lparr>f1 = 0, precision = 0, recall = 0\<rparr>"
    if "py_split (normalize_answer prediction) = []"
  proof -
    have "reference_scores prediction g = \<lparr>f1 = 0, precision = 0, recall = 0\<rparr>" for g
      using that by (simp add: reference_scores_def)
    moreover have "Max (insert (0::real) ((\<lambda>g. 0) ` set ground_truths)) = 0"
    proof -
      have "insert (0::real) ((\<lambda>g. 0) ` set ground_truths) = {0}" by auto
      then show ?thesis by (simp only: Max_singleton)
    qed
    ultimately show ?thesis by (simp add: best_scores_def)
  qed
  with a show ?thesis by simp
qed

theorem token_level_scores_spec_witness:
  "py_split (normalize_answer ''the'') = []
   \<and> token_level_scores ''the'' [''a cat''] = Inr \<lparr>f1 = 0, precision = 0, recall = 0\<rparr>
   \<and> token_level_scores ''the'' [''a cat''] = Inr (best_scores ''the'' [''a cat''])"
proof -
  have e: "py_split (normalize_answer ''the'') = []" by code_simp
  from token_level_scores_spec [of "''the''" "[''a cat'']"] e show ?thesis by blast
qed

section \<open>Normalization\<close>

subsection \<open>The characters that survive the punctuation pattern\<close>

lemma code_point_space: "code_point c = 32 \<longleftrightarrow> c = CHR '' ''"
proof -
  have "code_point (CHR '' '') = 32" by (simp add: code_point_def)
  then show ?thesis by (metis code_point_def of_char_eq_iff)
qed

lemma keep_space: "keep_char c \<Longrightarrow> is_space c \<longleftrightarrow> c = CHR '' ''"
  unfolding keep_char_def is_space_def is_az_def is_09_def Let_def
  using code_point_space [of c] by auto

lemma keep_word: "keep_char c \<Longrightarrow> is_word_char c \<longleftrightarrow> c \<noteq> CHR '' ''"
  unfolding keep_char_def is_word_char_def is_az_def is_09_def Let_def
  using code_point_space [of c] by auto

lemma keep_lower: "keep_char c \<Longrightarrow> lower_char c = c"
  unfolding keep_char_def lower_char_def is_az_def is_09_def Let_def
  using code_point_space [of c] by auto

lemma keep_char_space: "keep_char (CHR '' '')"
  by (simp add: keep_char_def)

lemma not_word_space: "\<not> is_word_char (CHR '' '')"
  using keep_word [OF keep_char_space] by simp

lemma space_is_space: "is_space (CHR '' '')"
  using keep_space [OF keep_char_space] by simp

lemma str_lower_kept: "\<forall>c \<in> set t. keep_char c \<Longrightarrow> str_lower t = t"
  unfolding str_lower_def by (induction t) (simp_all add: keep_lower)

lemma remove_punctuation_kept: "\<forall>c \<in> set t. keep_char c \<Longrightarrow> remove_punctuation t = t"
  unfolding remove_punctuation_def by (induction t) simp_all

lemma remove_punctuation_keeps: "\<forall>c \<in> set (remove_punctuation t). keep_char c"
  by (simp add: remove_punctuation_def)

subsection \<open>Splitting and joining\<close>

lemma split_from_word:
  "\<forall>c \<in> set w. \<not> is_space c \<Longrightarrow> split_from cur (w @ rest) = split_from (cur @ w) rest"
  by (induction w arbitrary: cur) simp_all

lemma split_from_members:
  "w \<in> set (split_from cur t) \<Longrightarrow>
     w \<noteq> [] \<and> set w \<subseteq> set cur \<union> set t \<and> (\<forall>c \<in> set w. c \<in> set cur \<or> \<not> is_space c)"
proof (induction t arbitrary: cur)
  case Nil
  then show ?case by (auto split: if_splits)
next
  case (Cons c t)
  show ?case
  proof (cases "is_space c")
    case True
    with Cons.prems have "w = cur \<and> cur \<noteq> [] \<or> w \<in> set (split_from [] t)"
      by (auto split: if_splits)
    then show ?thesis using Cons.IH [of "[]"] by auto
  next
    case False
    with Cons.prems have "w \<in> set (split_from (cur @ [c]) t)" by simp
    from Cons.IH [OF this] False show ?thesis by auto
  qed
qed

lemma py_split_members:
  "w \<in> set (py_split t) \<Longrightarrow> w \<noteq> [] \<and> set w \<subseteq> set t \<and> (\<forall>c \<in> set w. \<not> is_space c)"
  unfolding py_split_def using split_from_members [of w "[]" t] by auto

lemma py_split_join:
  "\<forall>w \<in> set ws. w \<noteq> [] \<and> (\<forall>c \<in> set w. \<not> is_space c) \<Longrightarrow>
   py_split (py_join '' '' ws) = ws"
proof (induction "'' ''" ws rule: py_join.induct)
  case 1
  then show ?case by (simp add: py_split_def)
next
  case (2 w)
  then have "split_from [] (w @ []) = split_from ([] @ w) []"
    by (intro split_from_word) simp
  with 2 show ?case by (simp add: py_split_def)
next
  case (3 w v ws)
  from 3 have w: "w \<noteq> []" "\<forall>c \<in> set w. \<not> is_space c" by simp_all
  have "split_from [] (w @ CHR '' '' # py_join '' '' (v # ws))
      = split_from ([] @ w) (CHR '' '' # py_join '' '' (v # ws))"
    using w(2) by (rule split_from_word)
  also have "\<dots> = w # split_from [] (py_join '' '' (v # ws))"
    using w(1) by (simp add: space_is_space)
  finally show ?case using 3 by (simp add: py_split_def)
qed

lemma set_py_join: "set (py_join sep ws) \<subseteq> set sep \<union> \<Union> (set ` set ws)"
  by (induction sep ws rule: py_join.induct) auto

subsection \<open>The article pattern on text without punctuation\<close>

lemma char_at_append_left: "i < length w \<Longrightarrow> char_at (w @ rest) i = Some (w ! i)"
  by (simp add: char_at_def nth_append)

lemma char_at_append_right: "char_at (w @ rest) (length w) = char_at rest 0"
  by (simp add: char_at_def nth_append)

lemma match_literal_word:
  assumes "plain_word lit" "plain_word w" "\<not> word_opt (char_at rest 0)"
  shows "match_literal lit (w @ rest) \<longleftrightarrow> w = lit"
proof
  assume "w = lit"
  moreover have "word_opt (char_at (lit @ rest) (length lit - 1))"
    using assms(1) by (simp add: plain_word_def char_at_append_left word_opt_def)
  ultimately show "match_literal lit (w @ rest)"
    using assms(3) by (simp add: match_literal_def boundary_def char_at_append_right)
next
  assume m: "match_literal lit (w @ rest)"
  then have p: "prefix lit (w @ rest)" by (simp add: match_literal_def)
  have l1: "length lit - 1 < length lit" using assms(1) by (simp add: plain_word_def)
  from p have len: "length lit \<le> length (w @ rest)" by (rule prefix_length_le)
  from p obtain zs where zs: "w @ rest = lit @ zs" by (auto simp: prefix_def)
  have nth: "(w @ rest) ! i = lit ! i" if "i < length lit" for i
    unfolding zs using that by (simp add: nth_append)
  have "char_at (w @ rest) (length lit - 1) = Some (lit ! (length lit - 1))"
    using l1 len nth by (simp add: char_at_def)
  then have "word_opt (char_at (w @ rest) (length lit - 1))"
    using assms(1) l1 by (simp add: word_opt_def plain_word_def)
  with m have nw: "\<not> word_opt (char_at (w @ rest) (length lit))"
    by (simp add: match_literal_def boundary_def)
  have "\<not> length lit < length w"
  proof
    assume "length lit < length w"
    then have "word_opt (char_at (w @ rest) (length lit))"
      using assms(2) by (simp add: char_at_append_left word_opt_def plain_word_def)
    with nw show False by simp
  qed
  moreover have "\<not> length w < length lit"
  proof
    assume lt: "length w < length lit"
    with len have r: "rest \<noteq> []" by auto
    from nth [OF lt] r have "rest ! 0 = lit ! length w" by (simp add: nth_append)
    with assms(1) lt have "is_word_char (rest ! 0)" by (simp add: plain_word_def)
    with r assms(3) show False by (simp add: char_at_def word_opt_def)
  qed
  ultimately have "length w = length lit" by simp
  with p show "w = lit" by (auto simp: prefix_def)
qed

lemma plain_literals: "plain_word ''a''" "plain_word ''an''" "plain_word ''the''"
  by (simp_all add: plain_word_def is_word_char_def code_point_def)

lemma match_article_word:
  assumes "\<not> word_opt prev" "plain_word w" "\<not> word_opt (char_at rest 0)"
  shows "match_article prev (w @ rest) = (if is_article w then Some (length w) else None)"
proof -
  have "char_at (w @ rest) 0 = Some (w ! 0)"
    using assms(2) by (simp add: char_at_append_left plain_word_def)
  then have b0: "boundary prev (char_at (w @ rest) 0)"
    using assms(1,2) by (simp add: boundary_def word_opt_def plain_word_def)
  have a1: "match_literal ''a'' (w @ rest) \<longleftrightarrow> w = ''a''"
    by (rule match_literal_word [OF plain_literals(1) assms(2,3)])
  have a2: "match_literal ''an'' (w @ rest) \<longleftrightarrow> w = ''an''"
    by (rule match_literal_word [OF plain_literals(2) assms(2,3)])
  have a3: "match_literal ''the'' (w @ rest) \<longleftrightarrow> w = ''the''"
    by (rule match_literal_word [OF plain_literals(3) assms(2,3)])
  have "match_article prev (w @ rest) =
          (if w = ''a'' then Some 1 else if w = ''an'' then Some 2
           else if w = ''the'' then Some 3 else None)"
    unfolding match_article_def by (simp only: b0 a1 a2 a3 not_True_eq_False if_False)
  also have "\<dots> = (if is_article w then Some (length w) else None)"
    by (auto simp: is_article_def)
  finally show ?thesis .
qed

lemma match_article_inside:
  "word_opt prev \<Longrightarrow> is_word_char c \<Longrightarrow> match_article prev (c # cs) = None"
  by (simp add: match_article_def boundary_def char_at_def word_opt_def)

lemma sub_articles_inside:
  "word_opt prev \<Longrightarrow> \<forall>c \<in> set w. is_word_char c \<Longrightarrow>
   sub_articles prev (w @ rest) = w @ sub_articles (if w = [] then prev else Some (last w)) rest"
proof (induction w arbitrary: prev)
  case Nil
  then show ?case by simp
next
  case (Cons c w)
  then have "match_article prev (c # w @ rest) = None"
    by (simp add: match_article_inside)
  moreover have "word_opt (Some c)" using Cons.prems by (simp add: word_opt_def)
  ultimately show ?case using Cons.IH [of "Some c"] Cons.prems by simp
qed

lemma sub_articles_word:
  assumes "\<not> word_opt prev" "plain_word w" "\<not> word_opt (char_at rest 0)"
  shows "sub_articles prev (w @ rest) =
           (if is_article w then '' '' else w) @ sub_articles (Some (last w)) rest"
proof -
  from assms(2) obtain c w' where w: "w = c # w'" by (cases w) (auto simp: plain_word_def)
  have m: "match_article prev (c # w' @ rest) = (if is_article w then Some (length w) else None)"
    using match_article_word [OF assms] w by simp
  show ?thesis
  proof (cases "is_article w")
    case True
    have "char_at (c # w' @ rest) (length w - 1) = Some (last w)"
      using w char_at_append_left [of "length w - 1" w rest] by (simp add: last_conv_nth)
    with True m w show ?thesis by simp
  next
    case False
    have "sub_articles (Some c) (w' @ rest) =
          w' @ sub_articles (if w' = [] then Some c else Some (last w')) rest"
      using assms(2) w by (intro sub_articles_inside) (simp_all add: plain_word_def word_opt_def)
    with False m w show ?thesis by simp
  qed
qed

lemma sub_articles_space:
  "sub_articles prev (CHR '' '' # rest) = CHR '' '' # sub_articles (Some (CHR '' '')) rest"
proof -
  have "match_article prev (CHR '' '' # rest) = None"
    by (simp add: match_article_def match_literal_def)
  then show ?thesis by simp
qed

subsection \<open>The words of a normalized string\<close>

lemma py_split_space: "py_split (CHR '' '' # x) = py_split x"
  by (simp add: py_split_def space_is_space)

lemma py_split_word_space:
  "w \<noteq> [] \<Longrightarrow> \<forall>c \<in> set w. \<not> is_space c \<Longrightarrow>
   py_split (w @ CHR '' '' # x) = w # py_split x"
  by (simp add: py_split_def split_from_word space_is_space)

lemma py_split_word:
  "w \<noteq> [] \<Longrightarrow> \<forall>c \<in> set w. \<not> is_space c \<Longrightarrow> py_split w = [w]"
  using split_from_word [of w "[]" "[]"] by (simp add: py_split_def)

lemma split_sub_articles:
  assumes "\<forall>c \<in> set t. keep_char c" "\<not> word_opt prev"
  shows "py_split (sub_articles prev t) = filter (\<lambda>w. \<not> is_article w) (py_split t)"
  using assms
proof (induction t arbitrary: prev rule: length_induct)
  case (1 t)
  have sp: "\<not> word_opt (Some (CHR '' ''))" by (simp add: word_opt_def not_word_space)
  show ?case
  proof (cases t)
    case Nil
    then show ?thesis by (simp add: py_split_def)
  next
    case (Cons c cs)
    show ?thesis
    proof (cases "c = CHR '' ''")
      case True
      have len: "length cs < length t" using Cons by simp
      have kept: "\<forall>c \<in> set cs. keep_char c" using "1.prems"(1) Cons by simp
      have "py_split (sub_articles (Some (CHR '' '')) cs) =
            filter (\<lambda>w. \<not> is_article w) (py_split cs)"
        using "1.IH" len kept sp by blast
      with True Cons show ?thesis
        by (simp add: sub_articles_space py_split_space del: sub_articles.simps)
    next
      case False
      define w where "w = takeWhile (\<lambda>x. x \<noteq> CHR '' '') t"
      define rest where "rest = dropWhile (\<lambda>x. x \<noteq> CHR '' '') t"
      have t: "t = w @ rest" by (simp add: w_def rest_def)
      have wne: "w \<noteq> []" using False Cons by (simp add: w_def)
      have wk: "\<forall>x \<in> set w. keep_char x \<and> x \<noteq> CHR '' ''"
        using "1.prems"(1) unfolding w_def by (auto dest: set_takeWhileD)
      have pw: "plain_word w" using wne wk by (simp add: plain_word_def keep_word)
      have ns: "\<forall>x \<in> set w. \<not> is_space x" using wk by (simp add: keep_space)
      have art: "is_article w \<Longrightarrow> w \<noteq> []" by (simp add: wne)
      show ?thesis
      proof (cases rest)
        case Nil
        then have r0: "\<not> word_opt (char_at rest 0)" by (simp add: char_at_def word_opt_def)
        have "sub_articles prev t = (if is_article w then '' '' else w)"
          using sub_articles_word [OF "1.prems"(2) pw r0] Nil t by simp
        moreover have "py_split '' '' = []" by (simp add: py_split_def space_is_space)
        moreover have "py_split w = [w]" using wne ns by (rule py_split_word)
        moreover have "t = w" using t Nil by simp
        ultimately show ?thesis by simp
      next
        case (Cons r rs)
        have "\<not> (hd rest \<noteq> CHR '' '')"
          unfolding rest_def by (rule hd_dropWhile) (use Cons rest_def in simp)
        with Cons have r: "r = CHR '' ''" by simp
        then have r0: "\<not> word_opt (char_at rest 0)"
          using Cons by (simp add: char_at_def word_opt_def not_word_space)
        have s: "sub_articles prev t =
              (if is_article w then '' '' else w) @ CHR '' '' # sub_articles (Some (CHR '' '')) rs"
          using sub_articles_word [OF "1.prems"(2) pw r0] Cons r t
          by (simp add: sub_articles_space del: sub_articles.simps)
        have len: "length rs < length t" using t Cons by simp
        have kept: "\<forall>c \<in> set rs. keep_char c" using "1.prems"(1) t Cons by simp
        have ih: "py_split (sub_articles (Some (CHR '' '')) rs) =
            filter (\<lambda>w. \<not> is_article w) (py_split rs)"
          using "1.IH" len kept sp by blast
        have rhs: "py_split t = w # py_split rs"
          unfolding t Cons r using wne ns by (rule py_split_word_space)
        show ?thesis
        proof (cases "is_article w")
          case True
          with s have "py_split (sub_articles prev t) = py_split (sub_articles (Some (CHR '' '')) rs)"
            by (simp add: py_split_space)
          with ih rhs True show ?thesis by simp
        next
          case False
          with s have "py_split (sub_articles prev t) = w # py_split (sub_articles (Some (CHR '' '')) rs)"
            using wne ns by (simp add: py_split_word_space)
          with ih rhs False show ?thesis by simp
        qed
      qed
    qed
  qed
qed

lemma normalize_answer_words:
  "normalize_answer s =
     py_join '' '' (filter (\<lambda>w. \<not> is_article w) (py_split (remove_punctuation (str_lower s))))"
proof -
  have "\<not> word_opt None" by (simp add: word_opt_def)
  then show ?thesis
    unfolding normalize_answer_def white_space_fix_def remove_articles_def
    by (simp add: split_sub_articles remove_punctuation_keeps)
qed

text \<open>
  C6. \<open>normalize_answer\<close> is idempotent: normalizing a normalized string changes
  nothing.
\<close>

theorem normalize_idempotent: "normalize_answer (normalize_answer s) = normalize_answer s"
proof -
  define p where "p = remove_punctuation (str_lower s)"
  define ws where "ws = filter (\<lambda>w. \<not> is_article w) (py_split p)"
  define u where "u = py_join '' '' ws"
  have u: "normalize_answer s = u" by (simp add: normalize_answer_words u_def ws_def p_def)
  have pk: "\<forall>c \<in> set p. keep_char c" unfolding p_def by (rule remove_punctuation_keeps)
  have wsp: "w \<noteq> [] \<and> set w \<subseteq> set p \<and> (\<forall>c \<in> set w. \<not> is_space c)" if "w \<in> set ws" for w
    using that py_split_members [of w p] by (simp add: ws_def)
  have uk: "\<forall>c \<in> set u. keep_char c"
  proof
    fix c assume "c \<in> set u"
    then have "c \<in> set '' '' \<union> \<Union> (set ` set ws)"
      unfolding u_def using set_py_join by blast
    then show "keep_char c" using wsp pk by (auto simp: keep_char_space)
  qed
  have "py_split u = ws" unfolding u_def by (rule py_split_join) (use wsp in blast)
  moreover have "remove_punctuation (str_lower u) = u"
    using uk by (simp add: str_lower_kept remove_punctuation_kept)
  ultimately have "normalize_answer u = py_join '' '' (filter (\<lambda>w. \<not> is_article w) ws)"
    by (simp add: normalize_answer_words)
  also have "filter (\<lambda>w. \<not> is_article w) ws = ws" by (simp add: ws_def)
  finally show ?thesis by (simp add: u u_def)
qed

section \<open>BLEU on a corpus that repeats its references\<close>

lemma windows_length: "g \<in> set (windows segment order) \<Longrightarrow> length g = order"
  by (auto simp: windows_def)

lemma length_windows: "length (windows segment order) = length segment + 1 - order"
  by (simp add: windows_def)

lemma filter_windows:
  "filter (\<lambda>g. length g = m) (windows segment order) =
     (if order = m then windows segment order else [])"
  by (auto simp: filter_empty_conv filter_id_conv dest: windows_length)

lemma count_windows_upto:
  "length (filter (\<lambda>g. length g = m) (concat (map (windows segment) [1..<Suc n]))) =
     (if 1 \<le> m \<and> m \<le> n then length segment + 1 - m else 0)"
proof (induction n)
  case 0
  then show ?case by simp
next
  case (Suc n)
  have "[1..<Suc (Suc n)] = [1..<Suc n] @ [Suc n]" by simp
  then show ?case
    using Suc by (simp only: map_append concat_append filter_append length_append)
      (auto simp: filter_windows length_windows)
qed

lemma ngram_list_upto: "ngram_list segment mo = concat (map (windows segment) [1..<Suc (nat mo)])"
proof (cases "0 \<le> mo")
  case True
  then have "nat (mo + 1) = Suc (nat mo)" by simp
  then show ?thesis by (simp only: ngram_list_def)
next
  case False
  then show ?thesis by (simp add: ngram_list_def)
qed

lemma count_ngrams:
  "i < nat mo \<Longrightarrow>
   size (filter_mset (\<lambda>g. length g = i + 1) (get_ngrams segment mo)) = length segment - i"
  unfolding get_ngrams_def ngram_list_upto
  by (simp only: mset_filter [symmetric] size_mset count_windows_upto Suc_eq_plus1 [symmetric]) simp

lemma add_matches_self:
  "length m = nat mo \<Longrightarrow>
   add_matches m (get_ngrams t mo) =
     map (\<lambda>i. m ! i + (length t - i)) [0..<nat mo]"
  using count_ngrams [of _ mo t] by (simp add: add_matches_def)

lemma length_possible_step: "length (possible_step L order q) = length q"
  by (simp add: possible_step_def Let_def)

lemma possible_fold:
  "k \<le> length p \<Longrightarrow>
   fold (possible_step L) [1..<Suc k] p =
     map (\<lambda>i. if i < k then p ! i + (L - i) else p ! i) [0..<length p]"
proof (induction k)
  case 0
  then show ?case by (simp add: map_nth)
next
  case (Suc k)
  let ?q = "map (\<lambda>i. if i < k then p ! i + (L - i) else p ! i) [0..<length p]"
  have q: "fold (possible_step L) [1..<Suc k] p = ?q" using Suc by simp
  have k: "k < length p" using Suc.prems by simp
  have "fold (possible_step L) [1..<Suc (Suc k)] p = possible_step L (Suc k) ?q"
    using q by simp
  also have "\<dots> = map (\<lambda>i. if i < Suc k then p ! i + (L - i) else p ! i) [0..<length p]"
  proof (rule nth_equalityI)
    show "length (possible_step L (Suc k) ?q) = length (map (\<lambda>i. if i < Suc k then p ! i + (L - i) else p ! i) [0..<length p])"
      by (simp add: length_possible_step)
  next
    fix i assume "i < length (possible_step L (Suc k) ?q)"
    then have i: "i < length p" by (simp add: length_possible_step)
    show "possible_step L (Suc k) ?q ! i = map (\<lambda>i. if i < Suc k then p ! i + (L - i) else p ! i) [0..<length p] ! i"
      using i k by (auto simp: possible_step_def Let_def nth_list_update less_Suc_eq)
  qed
  finally show ?case .
qed

lemma add_possible_eq:
  "length p = nat mo \<Longrightarrow>
   add_possible mo L p = map (\<lambda>i. p ! i + (L - i)) [0..<nat mo]"
proof -
  assume l: "length p = nat mo"
  have "[1..<nat (mo + 1)] = [1..<Suc (nat mo)]"
    by (cases "0 \<le> mo") (simp_all add: nat_add_distrib)
  then have "add_possible mo L p = fold (possible_step L) [1..<Suc (nat mo)] p"
    by (simp add: add_possible_def)
  also have "\<dots> = map (\<lambda>i. if i < nat mo then p ! i + (L - i) else p ! i) [0..<length p]"
    using l by (intro possible_fold) simp
  also have "\<dots> = map (\<lambda>i. p ! i + (L - i)) [0..<nat mo]"
    using l by simp
  finally show ?thesis .
qed

lemma merge_single: "merge_references [t] mo = get_ngrams t mo"
  by (simp add: merge_references_def)

lemma bleu_loop_self:
  assumes "length (matches_by_order acc) = nat mo"
      and "length (possible_matches_by_order acc) = nat mo"
  shows "bleu_loop mo (map (\<lambda>t. ([t], t)) ts) acc =
     Inr \<lparr>matches_by_order =
            map (\<lambda>i. matches_by_order acc ! i + sum_list (map (\<lambda>t. length t - i) ts)) [0..<nat mo],
          possible_matches_by_order =
            map (\<lambda>i. possible_matches_by_order acc ! i + sum_list (map (\<lambda>t. length t - i) ts))
                [0..<nat mo],
          reference_length = reference_length acc + sum_list (map length ts),
          translation_length = translation_length acc + sum_list (map length ts)\<rparr>"
  using assms
proof (induction ts arbitrary: acc)
  case Nil
  have "map (\<lambda>i. matches_by_order acc ! i) [0..<nat mo] = matches_by_order acc"
    using Nil(1) map_nth [of "matches_by_order acc"] by simp
  moreover have "map (\<lambda>i. possible_matches_by_order acc ! i) [0..<nat mo] = possible_matches_by_order acc"
    using Nil(2) map_nth [of "possible_matches_by_order acc"] by simp
  ultimately show ?case by simp
next
  case (Cons t ts)
  let ?acc = "\<lparr>matches_by_order = map (\<lambda>i. matches_by_order acc ! i + (length t - i)) [0..<nat mo],
               possible_matches_by_order =
                 map (\<lambda>i. possible_matches_by_order acc ! i + (length t - i)) [0..<nat mo],
               reference_length = reference_length acc + length t,
               translation_length = translation_length acc + length t\<rparr>"
  have step: "bleu_loop mo (map (\<lambda>t. ([t], t)) (t # ts)) acc = bleu_loop mo (map (\<lambda>t. ([t], t)) ts) ?acc"
    using Cons.prems
    by (simp add: merge_single add_matches_self add_possible_eq Let_def)
  have "length (matches_by_order ?acc) = nat mo" "length (possible_matches_by_order ?acc) = nat mo"
    by simp_all
  note Cons.IH [OF this]
  with step show ?case by (simp add: add.assoc)
qed

lemma zip_single_refs: "zip (map (\<lambda>t. [t]) ts) ts = map (\<lambda>t. ([t], t)) ts"
  by (induction ts) simp_all

lemma bleu_precisions_self:
  assumes "\<not> smooth self"
  shows "bleu_precisions self (map (\<lambda>t. [t]) ts) ts =
     Inr (map (\<lambda>i. if 0 < sum_list (map (\<lambda>t. length t - i) ts) then 1 else 0)
              [0..<nat (max_order self)])"
  using assms
  by (simp add: bleu_precisions_def zip_single_refs bleu_loop_self precision_at_def Let_def
           cong: map_cong)

lemma fold_min_ones: "fold min (replicate k (1::real)) 1 = 1"
  by (induction k) simp_all

text \<open>
  C2, as the specification states it: a corpus whose translations equal their single
  references scores 1.0 without smoothing. With the default \<open>max_order = 4\<close> and the
  one-token translation \<open>x\<close> there is no bigram, the precision of order 2 is 0.0, and
  so is the score.
\<close>

theorem bleu_short_counterexample:
  "\<not> smooth (example_scorer 4)
   \<and> compute_bleu (example_scorer 4) [[[''x'']]] [[''x'']] = Inr 0"
proof -
  have "bleu_precisions (example_scorer 4) [[[''x'']]] [[''x'']] = Inr [1, 0, 0, 0]"
    by code_simp
  then show ?thesis by (simp add: compute_bleu_def example_scorer_def)
qed

text \<open>
  C2, amended: without smoothing and with \<open>max_order \<ge> 1\<close>, a corpus whose translations
  equal their single references, one of them at least \<open>max_order\<close> tokens long, scores
  exactly 1.0.
\<close>

theorem bleu_self_consistency:
  assumes "\<not> smooth self"
      and "1 \<le> max_order self"
      and "reference_corpus = map (\<lambda>t. [t]) translation_corpus"
      and "\<exists>t \<in> set translation_corpus. max_order self \<le> int (length t)"
  shows "compute_bleu self reference_corpus translation_corpus = Inr 1"
proof -
  let ?n = "nat (max_order self)"
  from assms(4) obtain t where t: "t \<in> set translation_corpus" "?n \<le> length t" by auto
  have pos: "0 < sum_list (map (\<lambda>t. length t - i) translation_corpus)" if "i < ?n" for i
  proof -
    have "length t - i \<le> sum_list (map (\<lambda>t. length t - i) translation_corpus)"
      using t(1) by (intro member_le_sum_list) auto
    moreover have "0 < length t - i" using that t(2) by simp
    ultimately show ?thesis by linarith
  qed
  have "bleu_precisions self reference_corpus translation_corpus =
          Inr (map (\<lambda>i. if 0 < sum_list (map (\<lambda>t. length t - i) translation_corpus) then 1 else 0)
                   [0..<?n])"
    unfolding assms(3) using assms(1) by (rule bleu_precisions_self)
  also have "map (\<lambda>i. if 0 < sum_list (map (\<lambda>t. length t - i) translation_corpus) then 1 else 0)
                   [0..<?n] = map (\<lambda>i. 1::real) [0..<?n]"
    by (rule map_cong) (simp_all add: pos)
  also have "map (\<lambda>i. 1::real) [0..<?n] = replicate ?n 1"
    by (simp add: map_replicate_const)
  finally have p: "bleu_precisions self reference_corpus translation_corpus = Inr (replicate ?n 1)" .
  from assms(2) obtain k where k: "?n = Suc k" by (cases ?n) auto
  have "py_min (replicate ?n (1::real)) = Inr 1"
    unfolding k by (simp only: replicate_Suc py_min.simps fold_min_ones)
  moreover have "sum_list (map ln (replicate ?n (1::real))) = 0"
    by (simp add: sum_list_replicate)
  ultimately show ?thesis using p by (simp add: compute_bleu_def)
qed

theorem bleu_self_consistency_witness:
  "\<not> smooth (example_scorer 2) \<and> 1 \<le> max_order (example_scorer 2)
   \<and> [[[''x'', ''y'']]] = map (\<lambda>t. [t]) [[''x'', ''y'']]
   \<and> (\<exists>t \<in> set [[''x'', ''y'']]. max_order (example_scorer 2) \<le> int (length t))
   \<and> compute_bleu (example_scorer 2) [[[''x'', ''y'']]] [[''x'', ''y'']] = Inr 1"
proof -
  have a: "\<not> smooth (example_scorer 2)" by (simp add: example_scorer_def)
  have b: "1 \<le> max_order (example_scorer 2)" by (simp add: example_scorer_def)
  have c: "[[[''x'', ''y'']]] = map (\<lambda>t. [t]) [[''x'', ''y'']]" by simp
  have d: "\<exists>t \<in> set [[''x'', ''y'']]. max_order (example_scorer 2) \<le> int (length t)"
    by (simp add: example_scorer_def)
  from bleu_self_consistency [OF a b c d] a b c d show ?thesis by blast
qed

end
